theory Spec2Isabelle
  imports Main "HOL-Library.Stream"
begin

section \<open>The generator of make\_prez\_names.py\<close>

text \<open>
  The script prints \<open>BEGIN;\<close>, then for every pass and every slot one
  \<open>INSERT OR REPLACE\<close> statement whose name is recombined from two random picks of the
  name pool, then \<open>COMMIT;\<close>. The embedding keeps the script's order of evaluation:
  the module-level constants, the startup split of the pool, and the two nested loops.
  The process-wide random generator and the standard output are the explicit state.
\<close>

subsection \<open>Python values and built-ins used by the script\<close>

text \<open>The exceptions the built-ins below can raise.\<close>

datatype error = IndexError | TypeError | ValueError

text \<open>The values handed to the \<open>%\<close> operator: integers and strings.\<close>

datatype pyval = PInt int | PStr string

text \<open>
  \<open>str.split()\<close> without arguments: runs of whitespace separate the tokens, and no empty
  token is produced. The whitespace characters are those of Python for ASCII text.
\<close>

definition isspace :: "char \<Rightarrow> bool" where
  "isspace c = (c \<in> set [CHR 0x09, CHR 0x0A, CHR 0x0B, CHR 0x0C, CHR 0x0D,
                          CHR 0x1C, CHR 0x1D, CHR 0x1E, CHR 0x1F, CHR 0x20])"

fun split_from :: "string \<Rightarrow> string \<Rightarrow> string list" where
  "split_from cur [] = (if cur = [] then [] else [cur])"
| "split_from cur (c # cs) =
     (if isspace c then (if cur = [] then split_from [] cs else cur # split_from [] cs)
      else split_from (cur @ [c]) cs)"

definition str_split :: "string \<Rightarrow> string list" where
  "str_split s = split_from [] s"

text \<open>The decimal text of an integer, as \<open>%i\<close> and \<open>str\<close> print it.\<close>

definition digit_char :: "nat \<Rightarrow> char" where
  "digit_char d = ''0123456789'' ! d"

fun dec_nat :: "nat \<Rightarrow> string" where
  "dec_nat n = (if n < 10 then [digit_char n] else dec_nat (n div 10) @ [digit_char (n mod 10)])"

declare dec_nat.simps [simp del]

definition dec_int :: "int \<Rightarrow> string" where
  "dec_int i = (if i < 0 then CHR ''-'' # dec_nat (nat (- i)) else dec_nat (nat i))"

text \<open>
  The \<open>%\<close> operator on a template and a tuple of arguments, for the conversions the
  script uses (\<open>%i\<close>, \<open>%s\<close>) together with \<open>%d\<close> and \<open>%%\<close>. The text of an argument
  is copied into the result and never scanned again. A missing or a left-over argument and
  an integer conversion of a string raise \<open>TypeError\<close>; a template ending in \<open>%\<close>
  raises \<open>ValueError\<close>. Flags, widths and the remaining conversions of Python do not
  occur in the script's templates; they are not modelled and are answered with
  \<open>ValueError\<close> as an unknown conversion character is.
\<close>

fun percent :: "string \<Rightarrow> pyval list \<Rightarrow> error + string" where
  "percent [] [] = Inr []"
| "percent [] (a # as) = Inl TypeError"
| "percent (c # cs) args =
     (if c \<noteq> CHR ''%'' then
        (case percent cs args of Inl e \<Rightarrow> Inl e | Inr r \<Rightarrow> Inr (c # r))
      else
        (case cs of
           [] \<Rightarrow> Inl ValueError
         | d # ds \<Rightarrow>
             if d = CHR ''%'' then
               (case percent ds args of Inl e \<Rightarrow> Inl e | Inr r \<Rightarrow> Inr (CHR ''%'' # r))
             else if d = CHR ''i'' \<or> d = CHR ''d'' then
               (case args of
                  [] \<Rightarrow> Inl TypeError
                | PStr t # as \<Rightarrow> Inl TypeError
                | PInt n # as \<Rightarrow>
                    (case percent ds as of Inl e \<Rightarrow> Inl e | Inr r \<Rightarrow> Inr (dec_int n @ r)))
             else if d = CHR ''s'' then
               (case args of
                  [] \<Rightarrow> Inl TypeError
                | PStr t # as \<Rightarrow>
                    (case percent ds as of Inl e \<Rightarrow> Inl e | Inr r \<Rightarrow> Inr (t @ r))
                | PInt n # as \<Rightarrow>
                    (case percent ds as of Inl e \<Rightarrow> Inl e | Inr r \<Rightarrow> Inr (dec_int n @ r)))
             else Inl ValueError))"

text \<open>\<open>seq[i]\<close> for a non-negative index.\<close>

definition getitem :: "'a list \<Rightarrow> nat \<Rightarrow> error + 'a" where
  "getitem xs i = (if i < length xs then Inr (xs ! i) else Inl IndexError)"

text \<open>\<open>range(n)\<close>: the integers from 0 up to \<open>n - 1\<close>, none when \<open>n \<le> 0\<close>.\<close>

definition range_py :: "int \<Rightarrow> int list" where
  "range_py n = map int [0..<nat n]"

subsection \<open>The state: random generator and standard output\<close>

text \<open>
  The generator of module \<open>random\<close> is a stream of raw draws. \<open>random.choice(seq)\<close>
  raises \<open>IndexError\<close> on an empty sequence; otherwise it takes the next draw, reduced
  below the length of the sequence, as the index. The standard output is the list of
  the lines printed so far (each \<open>print\<close> writes its line and a newline).
\<close>

record state =
  rng :: "nat stream"
  stdout :: "string list"

definition choice :: "'a list \<Rightarrow> state \<Rightarrow> error + ('a \<times> state)" where
  "choice seq s =
     (if seq = [] then Inl IndexError
      else Inr (seq ! (shd (rng s) mod length seq), s\<lparr>rng := stl (rng s)\<rparr>))"

definition print :: "string \<Rightarrow> state \<Rightarrow> state" where
  "print line s = s\<lparr>stdout := stdout s @ [line]\<rparr>"

text \<open>The bytes written to the output stream.\<close>

definition rendered :: "string list \<Rightarrow> string" where
  "rendered ls = concat (map (\<lambda>l. l @ [CHR 0x0A]) ls)"

subsection \<open>The script\<close>



definition raw_names :: "string list" where
  "raw_names = [''George Washington'', ''Thomas Jefferson'', ''Abraham Lincoln'',
                ''Franklin Roosevelt'', ''John Kenedy'']"

text \<open>\<open>names = [n.split() for n in names]\<close>\<close>

definition names :: "string list list" where
  "names = map str_split raw_names"

text \<open>
  The body of the inner loop. The tuple is evaluated from left to right: the first pick
  and its element 0, then the second pick and its element 1; then the two templates.
\<close>

definition loop_body :: "string list list \<Rightarrow> int \<Rightarrow> state \<Rightarrow> error + state" where
  \<open>loop_body pool item s =
     (case choice pool s of Inl e \<Rightarrow> Inl e | Inr (a, s1) \<Rightarrow>
     (case getitem a 0 of Inl e \<Rightarrow> Inl e | Inr first_name \<Rightarrow>
     (case choice pool s1 of Inl e \<Rightarrow> Inl e | Inr (b, s2) \<Rightarrow>
     (case getitem b 1 of Inl e \<Rightarrow> Inl e | Inr last_name \<Rightarrow>
     (case percent ''%s %s'' [PStr first_name, PStr last_name] of
        Inl e \<Rightarrow> Inl e
      | Inr full_name \<Rightarrow>
     (case percent ''INSERT OR REPLACE INTO people VALUES (%i, "%s");''
                   [PInt item, PStr full_name] of
        Inl e \<Rightarrow> Inl e
      | Inr line \<Rightarrow> Inr (print line s2)))))))\<close>

text \<open>\<open>for item in range(ITEMS)\<close>: an exception leaves the loop.\<close>

fun item_loop :: "string list list \<Rightarrow> int list \<Rightarrow> state \<Rightarrow> error + state" where
  "item_loop pool [] s = Inr s"
| "item_loop pool (item # items) s =
     (case loop_body pool item s of Inl e \<Rightarrow> Inl e | Inr s' \<Rightarrow> item_loop pool items s')"

text \<open>\<open>for edit in range(EDITS)\<close>\<close>

fun edit_loop :: "string list list \<Rightarrow> int \<Rightarrow> int list \<Rightarrow> state \<Rightarrow> error + state" where
  "edit_loop pool n_items [] s = Inr s"
| "edit_loop pool n_items (edit # edits) s =
     (case item_loop pool (range_py n_items) s of
        Inl e \<Rightarrow> Inl e
      | Inr s' \<Rightarrow> edit_loop pool n_items edits s')"

text \<open>
  The module body, with the two constants and the pool as parameters, started on a
  random generator and an empty output.
\<close>

definition generate :: "int \<Rightarrow> int \<Rightarrow> string list list \<Rightarrow> nat stream \<Rightarrow> error + state" where
  "generate n_items n_edits pool g =
     (case edit_loop pool n_items (range_py n_edits)
             (print ''BEGIN;'' \<lparr>rng = g, stdout = []\<rparr>) of
        Inl e \<Rightarrow> Inl e
      | Inr s \<Rightarrow> Inr (print ''COMMIT;'' s))"


subsection \<open>The output format and its observables\<close>

text \<open>
  The insert line as the specification writes it: the slot in decimal and the name between
  double quotes, copied as they are.
\<close>

definition insert_statement :: "int \<Rightarrow> string \<Rightarrow> string" where
  \<open>insert_statement slot name =
     ''INSERT OR REPLACE INTO people VALUES ('' @ dec_int slot @ '', "'' @ name @ ''");''\<close>

text \<open>
  The name of the \<open>k\<close>-th iteration: element 0 of the entry picked by draw \<open>2k\<close>, a
  space, and element 1 of the entry picked by draw \<open>2k + 1\<close>.
\<close>

definition recombined :: "string list list \<Rightarrow> nat stream \<Rightarrow> nat \<Rightarrow> string" where
  "recombined pool g k =
     (pool ! (g !! (2 * k) mod length pool)) ! 0 @ '' '' @
     (pool ! (g !! (2 * k + 1) mod length pool)) ! 1"

text \<open>A pool on which no pick and no index can fail.\<close>

definition pool_ok :: "string list list \<Rightarrow> bool" where
  "pool_ok pool = (pool \<noteq> [] \<and> list_all (\<lambda>e. 2 \<le> length e) pool)"

text \<open>The first \<open>n\<close> insert lines of a run: iteration \<open>k\<close> writes slot \<open>k mod ITEMS\<close>.\<close>

definition insert_lines :: "string list list \<Rightarrow> int \<Rightarrow> nat stream \<Rightarrow> nat \<Rightarrow> string list" where
  "insert_lines pool n_items g n =
     map (\<lambda>k. insert_statement (int (k mod nat n_items)) (recombined pool g k)) [0..<n]"

text \<open>The lines between the first and the last line of an output.\<close>

definition inserts_of :: "string list \<Rightarrow> string list" where
  "inserts_of out = butlast (tl out)"

text \<open>
  Reading an insert line back: the slot is the decimal number after the opening
  parenthesis, up to the first comma; the name is the text between the double quote that
  follows the comma and the closing \<open>");\<close>.
\<close>

definition digit_val :: "char \<Rightarrow> nat" where
  "digit_val c = of_char c - 48"

definition nat_of_dec :: "string \<Rightarrow> nat" where
  "nat_of_dec cs = foldl (\<lambda>a c. 10 * a + digit_val c) 0 cs"

definition int_of_dec :: "string \<Rightarrow> int" where
  "int_of_dec cs =
     (case cs of
        [] \<Rightarrow> 0
      | c # r \<Rightarrow> if c = CHR ''-'' then - int (nat_of_dec r) else int (nat_of_dec cs))"

definition line_slot :: "string \<Rightarrow> int" where
  "line_slot line = int_of_dec (takeWhile (\<lambda>c. c \<noteq> CHR '','') (drop 38 line))"

definition line_name :: "string \<Rightarrow> string" where
  "line_name line =
     (let r = drop 3 (dropWhile (\<lambda>c. c \<noteq> CHR '','') (drop 38 line))
      in take (length r - 3) r)"

text \<open>The insert lines of pass \<open>p\<close> (counted from 0) of an output.\<close>

definition pass_of :: "int \<Rightarrow> string list \<Rightarrow> nat \<Rightarrow> string list" where
  "pass_of n_items out p = take (nat n_items) (drop (p * nat n_items) (inserts_of out))"

text \<open>The first and the last tokens of the five pool entries, in the order of the pool.\<close>

definition first_names :: "string list" where
  "first_names = [''George'', ''Thomas'', ''Abraham'', ''Franklin'', ''John'']"

definition last_names :: "string list" where
  "last_names = [''Washington'', ''Jefferson'', ''Lincoln'', ''Roosevelt'', ''Kenedy'']"

section \<open>The loops compute the expected output\<close>

lemma names_split:
  "names = [[''George'', ''Washington''], [''Thomas'', ''Jefferson''],
            [''Abraham'', ''Lincoln''], [''Franklin'', ''Roosevelt''], [''John'', ''Kenedy'']]"
  by (simp add: names_def raw_names_def str_split_def isspace_def)

lemma pool_ok_names: "pool_ok names"
  by (simp add: names_split pool_ok_def)

lemma percent_full_name: "percent ''%s %s'' [PStr a, PStr b] = Inr (a @ '' '' @ b)"
  by simp

lemma percent_insert:
  \<open>percent ''INSERT OR REPLACE INTO people VALUES (%i, "%s");'' [PInt i, PStr n]
     = Inr (insert_statement i n)\<close>
  by (simp add: insert_statement_def)

lemma pool_ok_pick:
  assumes "pool_ok pool"
  shows "pool \<noteq> []" and "2 \<le> length (pool ! (r mod length pool))"
proof -
  from assms show ne: "pool \<noteq> []" by (simp add: pool_ok_def)
  then have "r mod length pool < length pool" by simp
  with assms show "2 \<le> length (pool ! (r mod length pool))"
    by (simp add: pool_ok_def list_all_length)
qed

lemma loop_body_ok:
  assumes "pool_ok pool"
  shows "loop_body pool item s =
           Inr (s\<lparr>rng := stl (stl (rng s)),
                  stdout := stdout s @ [insert_statement item (recombined pool (rng s) 0)]\<rparr>)"
proof -
  have ne: "pool \<noteq> []" using assms by (rule pool_ok_pick)
  have l1: "0 < length (pool ! (shd (rng s) mod length pool))"
    using pool_ok_pick(2) [OF assms, of "shd (rng s)"] by linarith
  have l2: "1 < length (pool ! (shd (stl (rng s)) mod length pool))"
    using pool_ok_pick(2) [OF assms, of "shd (stl (rng s))"] by linarith
  show ?thesis
    using l1 l2
    by (simp add: loop_body_def choice_def ne getitem_def percent_full_name percent_insert print_def
          recombined_def del: percent.simps)
qed

lemma recombined_sdrop: "recombined pool (sdrop (2 * m) g) k = recombined pool g (m + k)"
  by (simp add: recombined_def sdrop_snth algebra_simps)

lemma item_loop_ok:
  assumes "pool_ok pool"
  shows "item_loop pool items s =
           Inr (s\<lparr>rng := sdrop (2 * length items) (rng s),
                  stdout := stdout s @
                    map (\<lambda>j. insert_statement (items ! j) (recombined pool (rng s) j))
                        [0..<length items]\<rparr>)"
proof (induction items arbitrary: s)
  case Nil
  show ?case by simp
next
  case (Cons item items)
  have shift: "recombined pool (stl (stl (rng s))) j = recombined pool (rng s) (Suc j)" for j
    using recombined_sdrop [of pool 1 "rng s" j] by (simp add: numeral_2_eq_2)
  show ?case
    by (simp add: loop_body_ok [OF assms] Cons.IH shift map_upt_Suc del: upt_Suc)
qed


lemma upt_split_add: "[0..<m + n] = [0..<m] @ map (\<lambda>k. m + k) [0..<n]"
proof -
  have "map (\<lambda>k. m + k) [0..<n] = [m..<m + n]"
    using map_add_upt [of m n] by (simp add: add.commute)
  then show ?thesis
    using upt_add_eq_append [of 0 m n] by simp
qed

lemma insert_lines_add:
  "insert_lines pool n_items g (nat n_items + n) =
     map (\<lambda>j. insert_statement (range_py n_items ! j) (recombined pool g j))
         [0..<length (range_py n_items)] @
     insert_lines pool n_items (sdrop (2 * nat n_items) g) n"
proof -
  let ?m = "nat n_items"
  let ?f = "\<lambda>k. insert_statement (int (k mod ?m)) (recombined pool g k)"
  have "map ?f [0..<?m + n] = map ?f [0..<?m] @ map (\<lambda>k. ?f (?m + k)) [0..<n]"
    by (simp only: upt_split_add [of ?m n] map_append map_map comp_def)
  moreover have "map ?f [0..<?m] =
      map (\<lambda>j. insert_statement (range_py n_items ! j) (recombined pool g j))
          [0..<length (range_py n_items)]"
    by (simp add: range_py_def)
  moreover have "map (\<lambda>k. ?f (?m + k)) [0..<n] =
      insert_lines pool n_items (sdrop (2 * ?m) g) n"
    by (simp add: insert_lines_def recombined_sdrop)
  ultimately show ?thesis by (simp only: insert_lines_def)
qed


lemma edit_loop_ok:
  assumes "pool_ok pool"
  shows "edit_loop pool n_items edits s =
           Inr (s\<lparr>rng := sdrop (2 * (length edits * nat n_items)) (rng s),
                  stdout := stdout s @
                    insert_lines pool n_items (rng s) (length edits * nat n_items)\<rparr>)"
proof (induction edits arbitrary: s)
  case Nil
  show ?case by (simp add: insert_lines_def)
next
  case (Cons edit edits)
  let ?m = "nat n_items"
  let ?n = "length edits * ?m"
  let ?s1 = "s\<lparr>rng := sdrop (2 * length (range_py n_items)) (rng s),
               stdout := stdout s @
                 map (\<lambda>j. insert_statement (range_py n_items ! j) (recombined pool (rng s) j))
                     [0..<length (range_py n_items)]\<rparr>"
  have len: "length (range_py n_items) = ?m"
    by (simp add: range_py_def)
  have pass: "item_loop pool (range_py n_items) s = Inr ?s1"
    by (rule item_loop_ok [OF assms])
  have rest: "edit_loop pool n_items edits ?s1 =
      Inr (?s1\<lparr>rng := sdrop (2 * ?n) (rng ?s1),
                 stdout := stdout ?s1 @ insert_lines pool n_items (rng ?s1) ?n\<rparr>)"
    by (rule Cons.IH)
  have count: "length (edit # edits) * ?m = ?m + ?n"
    by simp
  have drops: "sdrop (2 * ?n) (sdrop (2 * ?m) (rng s)) = sdrop (2 * (?m + ?n)) (rng s)"
    by (simp add: algebra_simps)
  have "edit_loop pool n_items (edit # edits) s = edit_loop pool n_items edits ?s1"
    by (simp only: edit_loop.simps pass sum.case)
  also note rest
  finally show ?case
    by (simp only: count insert_lines_add [of pool n_items "rng s" ?n] len)
       (simp add: drops)
qed

lemma generate_ok:
  assumes "pool_ok pool"
  shows "generate n_items n_edits pool g =
           Inr \<lparr>rng = sdrop (2 * (nat n_edits * nat n_items)) g,
                stdout = ''BEGIN;'' #
                  insert_lines pool n_items g (nat n_edits * nat n_items) @ [''COMMIT;'']\<rparr>"
  by (simp add: generate_def edit_loop_ok [OF assms] print_def range_py_def)

section \<open>Reading an insert line back\<close>

lemma digit_char_cases:
  assumes "d < 10"
  shows "digit_char d \<in> set ''0123456789'' \<and> digit_val (digit_char d) = d"
proof -
  from assms have "d \<in> {0, 1, 2, 3, 4, 5, 6, 7, 8, 9}" by auto
  then show ?thesis
    by (auto simp: digit_char_def digit_val_def)
qed

lemma dec_nat_digits: "set (dec_nat n) \<subseteq> set ''0123456789''"
proof (induction n rule: dec_nat.induct)
  case (1 n)
  show ?case
  proof (cases "n < 10")
    case True
    then show ?thesis
      using digit_char_cases [of n] by (subst dec_nat.simps) simp
  next
    case False
    have "digit_char (n mod 10) \<in> set ''0123456789''"
      using digit_char_cases [of "n mod 10"] by simp
    with False "1.IH" show ?thesis
      by (subst dec_nat.simps) simp
  qed
qed

lemma dec_nat_nonempty: "dec_nat n \<noteq> []"
  by (subst dec_nat.simps) simp

lemma nat_of_dec_snoc: "nat_of_dec (cs @ [c]) = 10 * nat_of_dec cs + digit_val c"
  by (simp add: nat_of_dec_def)

lemma nat_of_dec_nat: "nat_of_dec (dec_nat n) = n"
proof (induction n rule: dec_nat.induct)
  case (1 n)
  show ?case
  proof (cases "n < 10")
    case True
    then show ?thesis
      using digit_char_cases [of n]
      by (subst dec_nat.simps) (simp add: nat_of_dec_def)
  next
    case False
    have "digit_val (digit_char (n mod 10)) = n mod 10"
      using digit_char_cases [of "n mod 10"] by simp
    with False "1.IH" show ?thesis
      by (subst dec_nat.simps) (simp add: nat_of_dec_snoc)
  qed
qed

lemma int_of_dec_int: "int_of_dec (dec_int i) = i"
proof (cases "i < 0")
  case True
  then show ?thesis
    by (simp add: int_of_dec_def dec_int_def nat_of_dec_nat)
next
  case False
  obtain c r where cr: "dec_nat (nat i) = c # r"
    using dec_nat_nonempty [of "nat i"] by (cases "dec_nat (nat i)") auto
  have "c \<in> set ''0123456789''"
    using dec_nat_digits [of "nat i"] cr by auto
  then have "c \<noteq> CHR ''-''" by auto
  with False cr show ?thesis
    using nat_of_dec_nat [of "nat i"] by (simp add: int_of_dec_def dec_int_def)
qed

lemma dec_int_no_comma: "CHR '','' \<notin> set (dec_int i)"
proof -
  have "CHR '','' \<notin> set (dec_nat n)" for n
    using dec_nat_digits [of n] by auto
  then show ?thesis by (simp add: dec_int_def)
qed


lemma insert_statement_split:
  \<open>insert_statement slot name =
     ''INSERT OR REPLACE INTO people VALUES ('' @ dec_int slot @ CHR '','' # '' "'' @ name @ ''");''\<close>
  by (simp add: insert_statement_def)

lemma drop_prefix: "length p = n \<Longrightarrow> drop n (p @ r) = r"
  by simp

lemma drop_insert_statement:
  \<open>drop 38 (insert_statement slot name) = dec_int slot @ CHR '','' # '' "'' @ name @ ''");''\<close>
  unfolding insert_statement_split
  by (rule drop_prefix) simp

lemma line_slot_insert: "line_slot (insert_statement slot name) = slot"
proof -
  have "takeWhile (\<lambda>c. c \<noteq> CHR '','') (drop 38 (insert_statement slot name)) = dec_int slot"
    unfolding drop_insert_statement
    using dec_int_no_comma [of slot]
    by (auto simp: takeWhile_tail)
  then show ?thesis
    by (simp only: line_slot_def int_of_dec_int)
qed

lemma line_name_insert: "line_name (insert_statement slot name) = name"
proof -
  have \<open>dropWhile (\<lambda>c. c \<noteq> CHR '','') (drop 38 (insert_statement slot name)) =
          CHR '','' # '' "'' @ name @ ''");''\<close>
    unfolding drop_insert_statement
    using dec_int_no_comma [of slot]
    by (auto simp: dropWhile_append3)
  then show ?thesis
    by (simp add: line_name_def)
qed

section \<open>The passes of the output\<close>

lemma inserts_of_frame: "inserts_of (b # ls @ [c]) = ls"
  by (simp add: inserts_of_def)

lemma insert_lines_pass:
  "map (\<lambda>k. insert_statement (int (k mod m)) (recombined pool g k)) (map (\<lambda>i. p * m + i) [0..<m])
     = map (\<lambda>i. insert_statement (int i) (recombined pool g (p * m + i))) [0..<m]"
  by (simp add: comp_def)

lemma insert_lines_concat:
  "insert_lines pool n_items g (e * nat n_items) =
     concat (map (\<lambda>p. map (\<lambda>i. insert_statement (int i)
                                  (recombined pool g (p * nat n_items + i)))
                          [0..<nat n_items]) [0..<e])"
proof (induction e)
  case 0
  show ?case by (simp add: insert_lines_def)
next
  case (Suc e)
  let ?m = "nat n_items"
  let ?f = "\<lambda>k. insert_statement (int (k mod ?m)) (recombined pool g k)"
  have "insert_lines pool n_items g (Suc e * ?m) = map ?f [0..<e * ?m + ?m]"
    by (simp add: insert_lines_def add.commute)
  also have "\<dots> = map ?f [0..<e * ?m] @ map ?f (map (\<lambda>i. e * ?m + i) [0..<?m])"
    by (simp only: upt_split_add [of "e * ?m" ?m] map_append)
  also have "map ?f [0..<e * ?m] = insert_lines pool n_items g (e * ?m)"
    by (simp only: insert_lines_def)
  finally show ?case
    by (simp only: Suc.IH insert_lines_pass) simp
qed

lemma take_drop_upt:
  assumes "p < e"
  shows "take m (drop (p * m) [0..<e * m]) = map (\<lambda>i. p * m + i) [0..<m]"
proof -
  have "Suc p \<le> e" using assms by simp
  then have "Suc p * m \<le> e * m" by (rule mult_le_mono1)
  then have le: "p * m + m \<le> e * m" by (simp add: add.commute)
  have "drop (p * m) [0..<e * m] = [p * m..<e * m]"
    by simp
  moreover have "take m [p * m..<e * m] = [p * m..<p * m + m]"
    using le by simp
  moreover have "[p * m..<p * m + m] = map (\<lambda>i. p * m + i) [0..<m]"
    using map_add_upt [of "p * m" m] by (simp add: add.commute)
  ultimately show ?thesis by simp
qed

lemma pass_of_generate:
  assumes "p < e"
  shows "take (nat n_items) (drop (p * nat n_items) (insert_lines pool n_items g (e * nat n_items)))
           = map (\<lambda>i. insert_statement (int i) (recombined pool g (p * nat n_items + i)))
                 [0..<nat n_items]"
proof -
  let ?m = "nat n_items"
  let ?f = "\<lambda>k. insert_statement (int (k mod ?m)) (recombined pool g k)"
  have "take ?m (drop (p * ?m) (map ?f [0..<e * ?m])) = map ?f (take ?m (drop (p * ?m) [0..<e * ?m]))"
    by (simp only: take_map drop_map)
  then show ?thesis
    by (simp only: insert_lines_def take_drop_upt [OF assms] insert_lines_pass)
qed


lemma map_line_slot_insert_lines:
  "map line_slot (insert_lines pool n_items g n) = map (\<lambda>k. int (k mod nat n_items)) [0..<n]"
  by (simp add: insert_lines_def line_slot_insert comp_def)

lemma set_range_py: "set (range_py n) = {0..<n}"
proof (cases "0 \<le> n")
  case True
  have "set (range_py n) = int ` {0..<nat n}"
    by (simp add: range_py_def)
  also have "\<dots> = {int 0..<int (nat n)}"
    by (rule image_int_atLeastLessThan)
  finally show ?thesis using True by simp
next
  case False
  then show ?thesis by (simp add: range_py_def)
qed

lemma distinct_range_py: "distinct (range_py n)"
  by (simp add: range_py_def distinct_map)

lemma slots_in_range:
  "set (map (\<lambda>k. int (k mod nat n_items)) [0..<e * nat n_items]) \<subseteq> {0..<n_items}"
proof (cases "0 < n_items")
  case True
  then have "k mod nat n_items < nat n_items" for k by simp
  then have "int (k mod nat n_items) < n_items" for k
    using True by (metis nat_less_iff of_nat_0_le_iff zless_nat_conj nat_int)
  then show ?thesis by auto
next
  case False
  then show ?thesis by simp
qed

section \<open>The names of the pool\<close>

lemma pool_entry_tokens:
  assumes "a < 5"
  shows "names ! a ! 0 = first_names ! a \<and> names ! a ! 1 = last_names ! a"
proof -
  from assms have "a = 0 \<or> a = 1 \<or> a = 2 \<or> a = 3 \<or> a = 4" by linarith
  then show ?thesis
    by (elim disjE) (simp_all add: names_split first_names_def last_names_def)
qed


lemma recombined_names:
  "recombined names g k =
     first_names ! (g !! (2 * k) mod 5) @ '' '' @ last_names ! (g !! (2 * k + 1) mod 5)"
proof -
  have len: "length names = 5" by (simp add: names_split)
  have a: "g !! (2 * k) mod 5 < 5" and b: "g !! (2 * k + 1) mod 5 < 5" by simp_all
  show ?thesis
    unfolding recombined_def len
    using pool_entry_tokens [OF a] pool_entry_tokens [OF b]
    by (simp del: snth.simps)
qed

section \<open>The output and the random draws\<close>

lemma recombined_agree:
  assumes "stake (2 * n) g1 = stake (2 * n) g2" and "k < n"
  shows "recombined pool g1 k = recombined pool g2 k"
proof -
  have a: "2 * k < 2 * n" and b: "2 * k + 1 < 2 * n"
    using assms(2) by simp_all
  have "g1 !! (2 * k) = stake (2 * n) g1 ! (2 * k)"
    using a by (rule stake_nth [symmetric])
  also have "\<dots> = g2 !! (2 * k)"
    unfolding assms(1) using a by (rule stake_nth)
  finally have even: "g1 !! (2 * k) = g2 !! (2 * k)" .
  have "g1 !! (2 * k + 1) = stake (2 * n) g1 ! (2 * k + 1)"
    using b by (rule stake_nth [symmetric])
  also have "\<dots> = g2 !! (2 * k + 1)"
    unfolding assms(1) using b by (rule stake_nth)
  finally have odd: "g1 !! (2 * k + 1) = g2 !! (2 * k + 1)" .
  show ?thesis
    by (simp only: recombined_def even odd)
qed

lemma insert_lines_agree:
  assumes "stake (2 * n) g1 = stake (2 * n) g2"
  shows "insert_lines pool n_items g1 n = insert_lines pool n_items g2 n"
  unfolding insert_lines_def
  by (rule map_cong [OF refl]) (simp add: recombined_agree [OF assms])

lemma map_line_name_insert_lines:
  "map line_name (insert_lines pool n_items g n) = map (recombined pool g) [0..<n]"
  by (simp add: insert_lines_def line_name_insert comp_def)

lemma rename_insert_lines:
  "map2 (\<lambda>l name. insert_statement (line_slot l) name)
        (insert_lines pool n_items g1 n) (map line_name (insert_lines pool n_items g2 n))
     = insert_lines pool n_items g2 n"
proof -
  have "zip (insert_lines pool n_items g1 n) (map (recombined pool g2) [0..<n]) =
          map (\<lambda>k. (insert_statement (int (k mod nat n_items)) (recombined pool g1 k),
                     recombined pool g2 k)) [0..<n]"
    unfolding insert_lines_def
    by (simp add: zip_map_map zip_same_conv_map)
  then show ?thesis
    unfolding map_line_name_insert_lines
    by (simp add: insert_lines_def line_slot_insert comp_def)
qed

section \<open>Properties of the generator\<close>


text \<open>
  C7: with two items, one edit and a random generator whose every draw picks the first
  entry of the pool (every draw is a multiple of 5), the output is the four lines of the
  end-to-end scenario, in that order.
\<close>

theorem scenario_two_items_one_edit:
  \<open>map_sum id stdout (generate 2 1 names (smap (\<lambda>r. 5 * r) g)) =
     Inr [''BEGIN;'',
          ''INSERT OR REPLACE INTO people VALUES (0, "George Washington");'',
          ''INSERT OR REPLACE INTO people VALUES (1, "George Washington");'',
          ''COMMIT;'']\<close>
  by (simp add: generate_def range_py_def loop_body_def choice_def getitem_def print_def
        names_split dec_int_def dec_nat.simps digit_char_def upt_rec)

text \<open>
  C8: for non-negative numbers of items and edits the generator returns a final state; it
  has printed one insert line per iteration, \<open>EDITS * ITEMS\<close> of them, and has taken two
  draws per iteration from the random generator, one after the other.
\<close>

theorem generate_terminates:
  assumes "0 \<le> n_items" and "0 \<le> n_edits"
  shows "\<exists>s. generate n_items n_edits names g = Inr s \<and>
             int (length (inserts_of (stdout s))) = n_edits * n_items \<and>
             rng s = sdrop (nat (2 * (n_edits * n_items))) g"
  using assms
  by (simp add: generate_ok [OF pool_ok_names] insert_lines_def inserts_of_def
        nat_mult_distrib)

theorem generate_terminates_witness:
  "(0::int) \<le> 2 \<and> (0::int) \<le> 1 \<and>
   (\<exists>s. generate 2 1 names (sconst 0) = Inr s \<and>
        int (length (inserts_of (stdout s))) = 1 * 2 \<and>
        rng s = sdrop (nat (2 * (1 * 2))) (sconst 0))"
  using generate_terminates [of 2 1 "sconst 0"] by simp

text \<open>
  C9: every entry of the pool is split into exactly two tokens, so a pick from the pool
  has an element 0 and an element 1; the loop body and the whole generator never end in
  an exception.
\<close>

theorem pool_indexing_safe:
  "map length names = [2, 2, 2, 2, 2] \<and>
   (\<exists>a s1. choice names s = Inr (a, s1) \<and> length a = 2 \<and>
      (\<exists>first_name. getitem a 0 = Inr first_name) \<and>
      (\<exists>last_name. getitem a 1 = Inr last_name)) \<and>
   (\<exists>s'. loop_body names item s = Inr s') \<and>
   (\<exists>s'. generate n_items n_edits names g = Inr s')"
proof -
  have lens: "map length names = [2, 2, 2, 2, 2]"
    by (simp add: names_split)
  have ne: "names \<noteq> []"
    by (simp add: names_split)
  have "shd (rng s) mod length names < length names"
    using ne by simp
  then have "map length names ! (shd (rng s) mod length names) = 2"
    unfolding lens
    by (simp add: names_split nth_Cons')
  then have two: "length (names ! (shd (rng s) mod length names)) = 2"
    using ne by simp
  then have nonempty: "names ! (shd (rng s) mod length names) \<noteq> []"
    by auto
  show ?thesis
    using two nonempty
    by (simp add: lens choice_def ne getitem_def loop_body_ok [OF pool_ok_names]
          generate_ok [OF pool_ok_names])
qed

text \<open>
  C1: every run returns; the first line of its output is \<open>BEGIN;\<close>, the last line is
  \<open>COMMIT;\<close>, and between them are \<open>EDITS * ITEMS\<close> insert lines: all slots of pass 0 in
  increasing order, then all slots of pass 1, and so on.
\<close>

theorem output_shape:
  "\<exists>s. generate n_items n_edits names g = Inr s \<and>
       hd (stdout s) = ''BEGIN;'' \<and>
       last (stdout s) = ''COMMIT;'' \<and>
       length (inserts_of (stdout s)) = nat n_edits * nat n_items \<and>
       stdout s = ''BEGIN;'' #
         concat (map (\<lambda>p. map (\<lambda>i. insert_statement (int i)
                                      (recombined names g (p * nat n_items + i)))
                              [0..<nat n_items]) [0..<nat n_edits]) @ [''COMMIT;'']"
proof -
  let ?s = "\<lparr>rng = sdrop (2 * (nat n_edits * nat n_items)) g,
             stdout = ''BEGIN;'' #
               insert_lines names n_items g (nat n_edits * nat n_items) @ [''COMMIT;'']\<rparr>"
  have run: "generate n_items n_edits names g = Inr ?s"
    by (rule generate_ok [OF pool_ok_names])
  have "length (inserts_of (stdout ?s)) = nat n_edits * nat n_items"
    by (simp add: inserts_of_frame insert_lines_def)
  moreover have "hd (stdout ?s) = ''BEGIN;''" and "last (stdout ?s) = ''COMMIT;''"
    by simp_all
  moreover have "stdout ?s = ''BEGIN;'' #
      concat (map (\<lambda>p. map (\<lambda>i. insert_statement (int i)
                                   (recombined names g (p * nat n_items + i)))
                           [0..<nat n_items]) [0..<nat n_edits]) @ [''COMMIT;'']"
    by (simp add: insert_lines_concat)
  ultimately show ?thesis
    using run by blast
qed

text \<open>
  C2: in every pass the slots printed are \<open>0, 1, ..., ITEMS - 1\<close>, each of them once, and
  the slot of every insert line of the output lies in \<open>[0, ITEMS)\<close>.
\<close>

theorem slots_of_each_pass:
  assumes "p < nat n_edits"
  shows "\<exists>s. generate n_items n_edits names g = Inr s \<and>
             map line_slot (pass_of n_items (stdout s) p) = range_py n_items \<and>
             distinct (range_py n_items) \<and>
             set (range_py n_items) = {0..<n_items} \<and>
             set (map line_slot (inserts_of (stdout s))) \<subseteq> {0..<n_items}"
proof -
  let ?s = "\<lparr>rng = sdrop (2 * (nat n_edits * nat n_items)) g,
             stdout = ''BEGIN;'' #
               insert_lines names n_items g (nat n_edits * nat n_items) @ [''COMMIT;'']\<rparr>"
  have run: "generate n_items n_edits names g = Inr ?s"
    by (rule generate_ok [OF pool_ok_names])
  have ins: "inserts_of (stdout ?s) = insert_lines names n_items g (nat n_edits * nat n_items)"
    by (simp add: inserts_of_frame)
  have "map line_slot (pass_of n_items (stdout ?s) p) = range_py n_items"
    unfolding pass_of_def ins pass_of_generate [OF assms]
    by (simp add: line_slot_insert comp_def range_py_def)
  moreover have "set (map line_slot (inserts_of (stdout ?s))) \<subseteq> {0..<n_items}"
    unfolding ins map_line_slot_insert_lines by (rule slots_in_range)
  ultimately show ?thesis
    using run distinct_range_py [of n_items] set_range_py [of n_items] by blast
qed

theorem slots_of_each_pass_witness:
  "(0::nat) < nat 1 \<and> range_py 2 = [0, 1] \<and>
   (\<exists>s. generate 2 1 names (sconst 0) = Inr s \<and>
        map line_slot (pass_of 2 (stdout s) 0) = range_py 2 \<and>
        distinct (range_py 2) \<and>
        set (range_py 2) = {0..<2} \<and>
        set (map line_slot (inserts_of (stdout s))) \<subseteq> {0..<2})"
proof -
  have h: "(0::nat) < nat 1" by simp
  have r: "range_py 2 = [0, 1]"
    by (simp add: range_py_def upt_rec)
  show ?thesis
    by (intro conjI h r slots_of_each_pass [OF h])
qed

text \<open>
  C3: the name on the \<open>k\<close>-th insert line is a first name of the pool, a space, and a
  last name of the pool. The first name is chosen by draw \<open>2k\<close> alone and the last name
  by draw \<open>2k + 1\<close> alone, so the two may come from different entries of the pool.
\<close>

theorem name_components:
  assumes "k < nat n_edits * nat n_items"
  shows "\<exists>s. generate n_items n_edits names g = Inr s \<and>
             line_name (inserts_of (stdout s) ! k) =
               first_names ! (g !! (2 * k) mod 5) @ '' '' @
               last_names ! (g !! (2 * k + 1) mod 5) \<and>
             first_names ! (g !! (2 * k) mod 5) \<in>
               {''George'', ''Thomas'', ''Abraham'', ''Franklin'', ''John''} \<and>
             last_names ! (g !! (2 * k + 1) mod 5) \<in>
               {''Washington'', ''Jefferson'', ''Lincoln'', ''Roosevelt'', ''Kenedy''}"
proof -
  let ?s = "\<lparr>rng = sdrop (2 * (nat n_edits * nat n_items)) g,
             stdout = ''BEGIN;'' #
               insert_lines names n_items g (nat n_edits * nat n_items) @ [''COMMIT;'']\<rparr>"
  have run: "generate n_items n_edits names g = Inr ?s"
    by (rule generate_ok [OF pool_ok_names])
  have "inserts_of (stdout ?s) ! k =
          insert_statement (int (k mod nat n_items)) (recombined names g k)"
    using assms by (simp add: inserts_of_frame insert_lines_def)
  then have name: "line_name (inserts_of (stdout ?s) ! k) =
      first_names ! (g !! (2 * k) mod 5) @ '' '' @ last_names ! (g !! (2 * k + 1) mod 5)"
    by (simp only: line_name_insert recombined_names)
  have "first_names ! (g !! (2 * k) mod 5) \<in> set first_names"
    by (rule nth_mem) (simp add: first_names_def)
  then have first: "first_names ! (g !! (2 * k) mod 5) \<in>
      {''George'', ''Thomas'', ''Abraham'', ''Franklin'', ''John''}"
    by (simp add: first_names_def)
  have "last_names ! (g !! (2 * k + 1) mod 5) \<in> set last_names"
    by (rule nth_mem) (simp add: last_names_def)
  then have last: "last_names ! (g !! (2 * k + 1) mod 5) \<in>
      {''Washington'', ''Jefferson'', ''Lincoln'', ''Roosevelt'', ''Kenedy''}"
    by (simp add: last_names_def)
  show ?thesis
    by (rule exI [where x = ?s]) (intro conjI run name first last)
qed



theorem name_components_witness:
  "(0::nat) < nat 1 * nat 2 \<and>
   first_names ! ((2 ## 3 ## sconst 0) !! (2 * 0) mod 5) = ''Abraham'' \<and>
   last_names ! ((2 ## 3 ## sconst 0) !! (2 * 0 + 1) mod 5) = ''Roosevelt'' \<and>
   (\<exists>s. generate 2 1 names (2 ## 3 ## sconst 0) = Inr s \<and>
        line_name (inserts_of (stdout s) ! 0) =
          first_names ! ((2 ## 3 ## sconst 0) !! (2 * 0) mod 5) @ '' '' @
          last_names ! ((2 ## 3 ## sconst 0) !! (2 * 0 + 1) mod 5) \<and>
        first_names ! ((2 ## 3 ## sconst 0) !! (2 * 0) mod 5) \<in>
          {''George'', ''Thomas'', ''Abraham'', ''Franklin'', ''John''} \<and>
        last_names ! ((2 ## 3 ## sconst 0) !! (2 * 0 + 1) mod 5) \<in>
          {''Washington'', ''Jefferson'', ''Lincoln'', ''Roosevelt'', ''Kenedy''})"
proof -
  have h: "(0::nat) < nat 1 * nat 2" by simp
  have f: "first_names ! ((2 ## 3 ## sconst 0) !! (2 * 0) mod 5) = ''Abraham''"
    by (simp add: first_names_def)
  have l: "last_names ! ((2 ## 3 ## sconst 0) !! (2 * 0 + 1) mod 5) = ''Roosevelt''"
    by (simp add: last_names_def)
  show ?thesis
    by (intro conjI h f l name_components [OF h])
qed

text \<open>
  C4: the template of the insert line, applied to a slot and a name, gives the fixed text
  with the decimal slot and the name copied in as they are; an iteration of the loop
  prints exactly this line for its slot and its recombined name, whatever characters the
  name contains. Reading the line back returns the slot and the unchanged name.
\<close>

theorem insert_line_verbatim:
  assumes "pool_ok pool"
  shows \<open>percent ''INSERT OR REPLACE INTO people VALUES (%i, "%s");'' [PInt slot, PStr name] =
           Inr (''INSERT OR REPLACE INTO people VALUES ('' @ dec_int slot @ '', "'' @
                name @ ''");'') \<and>
         (\<exists>s'. loop_body pool item s = Inr s' \<and>
            stdout s' = stdout s @
              [''INSERT OR REPLACE INTO people VALUES ('' @ dec_int item @ '', "'' @
               recombined pool (rng s) 0 @ ''");''] \<and>
            line_slot (last (stdout s')) = item \<and>
            line_name (last (stdout s')) = recombined pool (rng s) 0)\<close>
proof -
  let ?line = "insert_statement item (recombined pool (rng s) 0)"
  let ?s' = "s\<lparr>rng := stl (stl (rng s)), stdout := stdout s @ [?line]\<rparr>"
  have fmt: \<open>percent ''INSERT OR REPLACE INTO people VALUES (%i, "%s");''
                 [PInt slot, PStr name] =
               Inr (''INSERT OR REPLACE INTO people VALUES ('' @ dec_int slot @ '', "'' @
                    name @ ''");'')\<close>
    by (simp only: percent_insert insert_statement_def)
  have run: "loop_body pool item s = Inr ?s'"
    by (rule loop_body_ok [OF assms])
  have out: \<open>stdout ?s' = stdout s @
      [''INSERT OR REPLACE INTO people VALUES ('' @ dec_int item @ '', "'' @
       recombined pool (rng s) 0 @ ''");'']\<close>
    by (simp add: insert_statement_def)
  have slot: "line_slot (last (stdout ?s')) = item"
    by (simp add: line_slot_insert)
  have name: "line_name (last (stdout ?s')) = recombined pool (rng s) 0"
    by (simp add: line_name_insert)
  show ?thesis
    by (rule conjI [OF fmt]) (rule exI [where x = ?s'], intro conjI run out slot name)
qed


theorem insert_line_verbatim_witness:
  \<open>pool_ok [[''Mc"Coy'', ''O"Hara'']] \<and>
   recombined [[''Mc"Coy'', ''O"Hara'']] (rng \<lparr>rng = sconst 0, stdout = []\<rparr>) 0 =
     ''Mc"Coy O"Hara'' \<and>
   dec_int 7 = ''7'' \<and>
   percent ''INSERT OR REPLACE INTO people VALUES (%i, "%s");'' [PInt 7, PStr ''a"b''] =
     Inr (''INSERT OR REPLACE INTO people VALUES ('' @ dec_int 7 @ '', "'' @ ''a"b'' @ ''");'') \<and>
   (\<exists>s'. loop_body [[''Mc"Coy'', ''O"Hara'']] 7 \<lparr>rng = sconst 0, stdout = []\<rparr> = Inr s' \<and>
      stdout s' = stdout \<lparr>rng = sconst 0, stdout = []\<rparr> @
        [''INSERT OR REPLACE INTO people VALUES ('' @ dec_int 7 @ '', "'' @
         recombined [[''Mc"Coy'', ''O"Hara'']] (rng \<lparr>rng = sconst 0, stdout = []\<rparr>) 0 @
         ''");''] \<and>
      line_slot (last (stdout s')) = 7 \<and>
      line_name (last (stdout s')) =
        recombined [[''Mc"Coy'', ''O"Hara'']] (rng \<lparr>rng = sconst 0, stdout = []\<rparr>) 0)\<close>
proof -
  have h: \<open>pool_ok [[''Mc"Coy'', ''O"Hara'']]\<close>
    by (simp add: pool_ok_def)
  have n: \<open>recombined [[''Mc"Coy'', ''O"Hara'']] (rng \<lparr>rng = sconst 0, stdout = []\<rparr>) 0 =
      ''Mc"Coy O"Hara''\<close>
    by (simp add: recombined_def)
  have d: "dec_int 7 = ''7''"
    by (simp add: dec_int_def dec_nat.simps digit_char_def)
  show ?thesis
    by (intro conjI h n d insert_line_verbatim [OF h, THEN conjunct1]
          insert_line_verbatim [OF h, THEN conjunct2])
qed

text \<open>
  C6: the output is a function of the draws the run observes. Two runs whose random
  generators agree on the first \<open>2 * EDITS * ITEMS\<close> draws print the same lines, hence the
  same bytes; in particular two runs on the same generator do.
\<close>

theorem output_determined_by_draws:
  assumes "stake (2 * (nat n_edits * nat n_items)) g1 =
           stake (2 * (nat n_edits * nat n_items)) g2"
  shows "\<exists>s1 s2. generate n_items n_edits names g1 = Inr s1 \<and>
                 generate n_items n_edits names g2 = Inr s2 \<and>
                 stdout s1 = stdout s2 \<and>
                 rendered (stdout s1) = rendered (stdout s2)"
proof -
  let ?n = "nat n_edits * nat n_items"
  let ?s1 = "\<lparr>rng = sdrop (2 * ?n) g1,
              stdout = ''BEGIN;'' # insert_lines names n_items g1 ?n @ [''COMMIT;'']\<rparr>"
  let ?s2 = "\<lparr>rng = sdrop (2 * ?n) g2,
              stdout = ''BEGIN;'' # insert_lines names n_items g2 ?n @ [''COMMIT;'']\<rparr>"
  have run1: "generate n_items n_edits names g1 = Inr ?s1"
    by (rule generate_ok [OF pool_ok_names])
  have run2: "generate n_items n_edits names g2 = Inr ?s2"
    by (rule generate_ok [OF pool_ok_names])
  have same: "stdout ?s1 = stdout ?s2"
    by (simp add: insert_lines_agree [OF assms])
  then have bytes: "rendered (stdout ?s1) = rendered (stdout ?s2)"
    by (rule arg_cong)
  show ?thesis
    by (rule exI [where x = ?s1], rule exI [where x = ?s2])
       (intro conjI run1 run2 same bytes)
qed

theorem output_determined_by_draws_witness:
  "stake (2 * (nat 1 * nat 1)) ((3::nat) ## 4 ## sconst 0) =
     stake (2 * (nat 1 * nat 1)) ((3::nat) ## 4 ## sconst 1) \<and>
   shd (stl (stl ((3::nat) ## 4 ## sconst 0))) \<noteq> shd (stl (stl ((3::nat) ## 4 ## sconst 1))) \<and>
   (\<exists>s1 s2. generate 1 1 names ((3::nat) ## 4 ## sconst 0) = Inr s1 \<and>
            generate 1 1 names ((3::nat) ## 4 ## sconst 1) = Inr s2 \<and>
            stdout s1 = stdout s2 \<and>
            rendered (stdout s1) = rendered (stdout s2))"
proof -
  have h: "stake (2 * (nat 1 * nat 1)) ((3::nat) ## 4 ## sconst 0) =
           stake (2 * (nat 1 * nat 1)) ((3::nat) ## 4 ## sconst 1)"
    by (simp add: numeral_2_eq_2)
  have d: "shd (stl (stl ((3::nat) ## 4 ## sconst 0))) \<noteq> shd (stl (stl ((3::nat) ## 4 ## sconst 1)))"
    by simp
  show ?thesis
    by (intro conjI h d output_determined_by_draws [OF h])
qed


text \<open>
  C10: for any two random generators the two outputs have the same number of lines, the
  same first and last line and the same slot on every insert line; putting the names of
  the second run into the lines of the first run gives the second output, so the draws
  influence the names only.
\<close>

theorem skeleton_independent_of_draws:
  "\<exists>s1 s2. generate n_items n_edits names g1 = Inr s1 \<and>
           generate n_items n_edits names g2 = Inr s2 \<and>
           length (stdout s1) = length (stdout s2) \<and>
           hd (stdout s1) = ''BEGIN;'' \<and> hd (stdout s2) = ''BEGIN;'' \<and>
           last (stdout s1) = ''COMMIT;'' \<and> last (stdout s2) = ''COMMIT;'' \<and>
           map line_slot (inserts_of (stdout s1)) = map line_slot (inserts_of (stdout s2)) \<and>
           map2 (\<lambda>l name. insert_statement (line_slot l) name)
                (inserts_of (stdout s1)) (map line_name (inserts_of (stdout s2)))
             = inserts_of (stdout s2)"
proof -
  let ?n = "nat n_edits * nat n_items"
  let ?s1 = "\<lparr>rng = sdrop (2 * ?n) g1,
              stdout = ''BEGIN;'' # insert_lines names n_items g1 ?n @ [''COMMIT;'']\<rparr>"
  let ?s2 = "\<lparr>rng = sdrop (2 * ?n) g2,
              stdout = ''BEGIN;'' # insert_lines names n_items g2 ?n @ [''COMMIT;'']\<rparr>"
  have run1: "generate n_items n_edits names g1 = Inr ?s1"
    by (rule generate_ok [OF pool_ok_names])
  have run2: "generate n_items n_edits names g2 = Inr ?s2"
    by (rule generate_ok [OF pool_ok_names])
  have ins1: "inserts_of (stdout ?s1) = insert_lines names n_items g1 ?n"
    by (simp add: inserts_of_frame)
  have ins2: "inserts_of (stdout ?s2) = insert_lines names n_items g2 ?n"
    by (simp add: inserts_of_frame)
  have len: "length (stdout ?s1) = length (stdout ?s2)"
    by (simp add: insert_lines_def)
  have hd1: "hd (stdout ?s1) = ''BEGIN;''" and hd2: "hd (stdout ?s2) = ''BEGIN;''"
    by simp_all
  have last1: "last (stdout ?s1) = ''COMMIT;''" and last2: "last (stdout ?s2) = ''COMMIT;''"
    by simp_all
  have slots: "map line_slot (inserts_of (stdout ?s1)) = map line_slot (inserts_of (stdout ?s2))"
    by (simp only: ins1 ins2 map_line_slot_insert_lines)
  have rename: "map2 (\<lambda>l name. insert_statement (line_slot l) name)
                  (inserts_of (stdout ?s1)) (map line_name (inserts_of (stdout ?s2)))
                = inserts_of (stdout ?s2)"
    by (simp only: ins1 ins2 rename_insert_lines)
  show ?thesis
    by (rule exI [where x = ?s1], rule exI [where x = ?s2])
       (intro conjI run1 run2 len hd1 hd2 last1 last2 slots rename)
qed

end
